theory Spec2Isabelle
  imports Main
begin

section \<open>Bytes, runes and the library functions used by kvlog\<close>

text \<open>
  A Go \<^verbatim>\<open>string\<close> or \<^verbatim>\<open>[]byte\<close> is a sequence of bytes: a \<^typ>\<open>string\<close> here.
  \<^verbatim>\<open>len\<close> is \<^const>\<open>length\<close>; a rune is its code point, a natural number.
\<close>

definition byte :: "char \<Rightarrow> nat" where
  "byte c = of_char c"

definition RuneError :: nat where
  "RuneError = 65533"

definition contb :: "nat \<Rightarrow> bool" where
  "contb b = (128 \<le> b \<and> b \<le> 191)"

text \<open>
  \<^verbatim>\<open>utf8.DecodeRune\<close>: the rune at the front of the bytes and its width in bytes. An empty
  input gives \<^verbatim>\<open>(RuneError, 0)\<close>, an invalid or short encoding \<^verbatim>\<open>(RuneError, 1)\<close>.
  The second byte of a sequence is checked against the range its first byte accepts
  (E0, ED, F0 and F4 narrow it), the later ones against 80..BF.
\<close>

definition DecodeRune :: "string \<Rightarrow> nat \<times> nat" where
  "DecodeRune p =
     (case p of
        [] \<Rightarrow> (RuneError, 0)
      | c0 # q \<Rightarrow>
          (let p0 = byte c0 in
           if p0 < 128 then (p0, 1)
           else if p0 < 194 \<or> 244 < p0 then (RuneError, 1)
           else
             (let sz = (if p0 < 224 then 2 else if p0 < 240 then 3 else (4::nat));
                  lo = (if p0 = 224 then 160 else if p0 = 240 then 144 else (128::nat));
                  hi = (if p0 = 237 then 159 else if p0 = 244 then 143 else (191::nat))
              in if length p < sz then (RuneError, 1)
                 else
                   (let b1 = byte (q ! 0) in
                    if b1 < lo \<or> hi < b1 then (RuneError, 1)
                    else if sz \<le> 2 then ((p0 mod 32) * 64 + b1 mod 64, 2)
                    else
                      (let b2 = byte (q ! 1) in
                       if \<not> contb b2 then (RuneError, 1)
                       else if sz \<le> 3
                         then ((p0 mod 16) * 4096 + (b1 mod 64) * 64 + b2 mod 64, 3)
                       else
                         (let b3 = byte (q ! 2) in
                          if \<not> contb b3 then (RuneError, 1)
                          else ((p0 mod 8) * 262144 + (b1 mod 64) * 4096
                                  + (b2 mod 64) * 64 + b3 mod 64, 4)))))))"

text \<open>
  \<^verbatim>\<open>utf8.RuneCount\<close> and \<^verbatim>\<open>utf8.RuneCountInString\<close>: the number of runes, every
  invalid byte counting as one rune.
\<close>

fun RuneCount :: "string \<Rightarrow> nat" where
  "RuneCount [] = 0"
| "RuneCount (c # p) = Suc (RuneCount (drop (snd (DecodeRune (c # p)) - 1) p))"

text \<open>
  \<^verbatim>\<open>utf8.EncodeRune\<close>, as \<^verbatim>\<open>bytes.Buffer.WriteRune\<close> uses it: surrogates and values
  beyond U+10FFFF are written as the encoding of \<^verbatim>\<open>RuneError\<close>.
\<close>

definition EncodeRune :: "nat \<Rightarrow> string" where
  "EncodeRune r =
     (if r < 128 then [char_of r]
      else if r < 2048 then [char_of (192 + r div 64), char_of (128 + r mod 64)]
      else if 1114111 < r \<or> (55296 \<le> r \<and> r \<le> 57343)
        then [char_of (239::nat), char_of (191::nat), char_of (189::nat)]
      else if r < 65536
        then [char_of (224 + r div 4096), char_of (128 + (r div 64) mod 64),
              char_of (128 + r mod 64)]
      else [char_of (240 + r div 262144), char_of (128 + (r div 4096) mod 64),
            char_of (128 + (r div 64) mod 64), char_of (128 + r mod 64)])"

text \<open>\<^verbatim>\<open>unicode.IsSpace\<close>: the Latin-1 spaces and the code points with property White_Space.\<close>

definition IsSpace :: "nat \<Rightarrow> bool" where
  "IsSpace r =
     (r = 9 \<or> r = 10 \<or> r = 11 \<or> r = 12 \<or> r = 13 \<or> r = 32 \<or> r = 133 \<or> r = 160
      \<or> r = 5760 \<or> (8192 \<le> r \<and> r \<le> 8202) \<or> r = 8232 \<or> r = 8233 \<or> r = 8239
      \<or> r = 8287 \<or> r = 12288)"

text \<open>
  The regular-expression classes of Go's \<^verbatim>\<open>regexp\<close>: \<^verbatim>\<open>\d\<close> is \<^verbatim>\<open>[0-9]\<close> and
  \<^verbatim>\<open>\s\<close> is \<^verbatim>\<open>[\t\n\f\r ]\<close>, both ASCII only.
\<close>

definition isDigit :: "char \<Rightarrow> bool" where
  "isDigit c = (48 \<le> byte c \<and> byte c \<le> 57)"

definition isWhite :: "char \<Rightarrow> bool" where
  "isWhite c = (byte c = 9 \<or> byte c = 10 \<or> byte c = 12 \<or> byte c = 13 \<or> byte c = 32)"

text \<open>
  \<^verbatim>\<open>whiteSpaceRE = ^\s+\<close> and \<^verbatim>\<open>blackSpaceRE = ^[^\s,]+\<close>, as \<^verbatim>\<open>Find\<close> applies them: the
  longest run at the front, empty when there is no match. A rune outside ASCII, and every
  byte of an invalid encoding, is made of bytes from 80 upwards and belongs to the negated
  class, so the run of runes is the run of bytes that are neither white space nor a comma.
\<close>

definition whiteSpaceRE :: "string \<Rightarrow> string" where
  "whiteSpaceRE s = takeWhile isWhite s"

definition isBlack :: "char \<Rightarrow> bool" where
  "isBlack c = (\<not> isWhite c \<and> c \<noteq> CHR '','')"

definition blackSpaceRE :: "string \<Rightarrow> string" where
  "blackSpaceRE s = takeWhile isBlack s"

text \<open>\<^verbatim>\<open>strings.HasPrefix\<close>.\<close>

definition HasPrefix :: "string \<Rightarrow> string \<Rightarrow> bool" where
  "HasPrefix s p = (length p \<le> length s \<and> take (length p) s = p)"

text \<open>
  \<^verbatim>\<open>bytes.EqualFold\<close> against an ASCII pattern none of whose letters is k or s (the two
  letters whose case orbit holds a rune outside ASCII): the two byte strings are equal up
  to the case of the letters A to Z.
\<close>

definition toLowerASCII :: "char \<Rightarrow> char" where
  "toLowerASCII c = (if 65 \<le> byte c \<and> byte c \<le> 90 then char_of (byte c + 32) else c)"

definition EqualFold :: "string \<Rightarrow> string \<Rightarrow> bool" where
  "EqualFold s t = (map toLowerASCII s = map toLowerASCII t)"

section \<open>The package variables\<close>

definition newline :: string where
  "newline = [CHR 0x0A]"

definition verbosePrefixes :: "string list" where
  "verbosePrefixes = [''debug:'', ''trace:'']"

definition errorPrefixes :: "string list" where
  "errorPrefixes = [''error:'']"

definition escRed :: string where
  "escRed = CHR 0x1B # ''[0;31m''"

definition escReset :: string where
  "escReset = CHR 0x1B # ''[0m''"

subsection \<open>headerRE\<close>

text \<open>
  \<^verbatim>\<open>^(\d{4}/\d\d/\d\d )?(\d\d:\d\d:\d\d(\.\d{0,6})? )?\<close>. In \<open>matchFixed\<close> the pattern
  character d stands for \<^verbatim>\<open>\d\<close>, every other one for itself. Each optional group is
  taken when it matches (the expression as a whole never fails, so the first choice of
  the leftmost-first search stands). After the seconds the time group needs a space, or
  a dot, at most six digits and a space.
\<close>

fun matchFixed :: "string \<Rightarrow> string \<Rightarrow> bool" where
  "matchFixed [] s = True"
| "matchFixed (p # ps) [] = False"
| "matchFixed (p # ps) (c # cs) =
     ((if p = CHR ''d'' then isDigit c else c = p) \<and> matchFixed ps cs)"

definition matchDate :: "string \<Rightarrow> nat" where
  "matchDate s = (if matchFixed ''dddd/dd/dd '' s then 11 else 0)"

definition matchTime :: "string \<Rightarrow> nat" where
  "matchTime s =
     (if matchFixed ''dd:dd:dd'' s then
        (case drop 8 s of
           [] \<Rightarrow> 0
         | c # r \<Rightarrow>
             if c = CHR '' '' then 9
             else if c = CHR ''.'' then
               (let ds = takeWhile isDigit r in
                if length ds \<le> 6 \<and> HasPrefix (drop (length ds) r) '' ''
                  then 8 + 1 + length ds + 1 else 0)
             else 0)
      else 0)"

definition headerLen :: "string \<Rightarrow> nat" where
  "headerLen s = (let d = matchDate s in d + matchTime (drop d s))"

text \<open>\<^verbatim>\<open>headerRE.FindStringSubmatch(s)[0]\<close>: the whole match, which always exists.\<close>

definition headerRE :: "string \<Rightarrow> string" where
  "headerRE s = take (headerLen s) s"

text \<open>
  Lines 131 to 138 of \<^verbatim>\<open>Write\<close>: the prefix and the text that remains.
\<close>

definition extractHeader :: "string \<Rightarrow> string \<times> string" where
  "extractHeader t = (let prefix = headerRE t in (prefix, drop (length prefix) t))"

section \<open>The writer and its buffer\<close>

text \<open>
  \<^verbatim>\<open>Writer\<close>. \<open>Out\<close> is the stream's \<^verbatim>\<open>Write\<close> method: the byte count and error it
  reports for the bytes it is handed. \<open>Width\<close> is the width callback. The mutex is not
  modelled: one call of \<^verbatim>\<open>Write\<close> is a sequential computation.
\<close>

datatype go_error = IOError string

record Writer =
  Out :: "string \<Rightarrow> int \<times> go_error option"
  Width :: "unit \<Rightarrow> int"
  Verbose :: bool
  colorOutput :: bool
  origOut :: "string \<Rightarrow> int \<times> go_error option"

definition NoColor :: "Writer \<Rightarrow> Writer" where
  "NoColor w = w\<lparr>Out := origOut w, colorOutput := False\<rparr>"

text \<open>
  The message that \<^verbatim>\<open>kv.Parse\<close> returns: the text and a list of interface values. The
  parser and the pair formatter \<^verbatim>\<open>kv.P(k, v).String()\<close> belong to the parent package;
  \<^verbatim>\<open>Write\<close> below takes the parsed message and the formatter as parameters.
\<close>

datatype iface = Str string | Num int | Flag bool | Nil

record Message =
  Text :: string
  List :: "iface list"

datatype panic = TypeAssertion | IndexOutOfRange

record keyvalText =
  ktext :: string
  ktextRuneCount :: int

record messageText =
  mtext :: string
  textRuneCount :: int
  totalRuneCount :: int
  keyvals :: "keyvalText list"

text \<open>
  The buffer \<^verbatim>\<open>sb\<close> is kept as the sequence of its writes, one constructor for each
  place of \<^verbatim>\<open>Write\<close> that writes to it; \<^verbatim>\<open>sb.Bytes()\<close> is their concatenation.
\<close>

datatype chunk =
    Prefix string
  | Newline
  | Indent string
  | Space
  | Token string
  | Escape string
  | Punct nat
  | Plain string
  | Keyval string

fun chunkBytes :: "chunk \<Rightarrow> string" where
  "chunkBytes (Prefix s) = s"
| "chunkBytes Newline = newline"
| "chunkBytes (Indent s) = s"
| "chunkBytes Space = '' ''"
| "chunkBytes (Token s) = s"
| "chunkBytes (Escape s) = s"
| "chunkBytes (Punct r) = EncodeRune r"
| "chunkBytes (Plain s) = s"
| "chunkBytes (Keyval s) = s"

definition Bytes :: "chunk list \<Rightarrow> string" where
  "Bytes sb = concat (map chunkBytes sb)"

subsection \<open>The pair loop, lines 162 to 173\<close>

text \<open>
  \<^verbatim>\<open>msg.List[i].(string)\<close> panics on a key that is not a string, \<^verbatim>\<open>msg.List[i+1]\<close>
  on a list that ends after a key; the assertion is evaluated first.
\<close>

fun pairLoop :: "(string \<Rightarrow> iface \<Rightarrow> string) \<Rightarrow> iface list \<Rightarrow> messageText \<Rightarrow> panic + messageText" where
  "pairLoop kvString [] m = Inr m"
| "pairLoop kvString [k] m =
     (case k of Str key \<Rightarrow> Inl IndexOutOfRange | _ \<Rightarrow> Inl TypeAssertion)"
| "pairLoop kvString (k # v # rest) m =
     (case k of
        Str key \<Rightarrow>
          (let keyval = kvString key v;
               runeCount = int (RuneCount keyval)
           in pairLoop kvString rest
                (m\<lparr>keyvals := keyvals m @ [\<lparr>ktext = keyval, ktextRuneCount = runeCount\<rparr>],
                   totalRuneCount := totalRuneCount m + (runeCount + 1)\<rparr>))
      | _ \<Rightarrow> Inl TypeAssertion)"

subsection \<open>The wrapping loop, lines 185 to 254\<close>

definition isError :: "string \<Rightarrow> bool" where
  "isError bs =
     list_ex (\<lambda>p. length bs \<ge> length p \<and> EqualFold (take (length p) bs) p) errorPrefixes"

text \<open>One pass of the body of \<^verbatim>\<open>for len(in) > 0\<close> on the state \<open>(sb, col, in)\<close>.\<close>

definition wrapToken ::
  "bool \<Rightarrow> int \<Rightarrow> string \<Rightarrow> chunk list \<times> int \<times> string \<Rightarrow> chunk list \<times> int \<times> string" where
  "wrapToken color width indent st =
     (case st of (sb, col, in0) \<Rightarrow>
        (let ws = whiteSpaceRE in0;
             in1 = (if length ws > 0 then drop (length ws) in0 else in0);
             wsLen = (if length ws > 0 then 1 else (0::int));
             bs = blackSpaceRE in1;
             in2 = (if length bs > 0 then drop (length bs) in1 else in1);
             bsLen = int (RuneCount bs);
             dec = DecodeRune in2;
             punct = fst dec;
             hasPunct = (length in2 > 0 \<and> \<not> IsSpace punct);
             punctLen = (if hasPunct then int (snd dec) else 0);
             in3 = (if hasPunct then drop (snd dec) in2 else in2);
             placed =
               (if bsLen + wsLen + punctLen + col > width
                then (sb @ [Newline, Indent indent, Token bs], int (length indent) + bsLen)
                else
                  (let sb1 = (if length ws > 0 then sb @ [Space] else sb);
                       col1 = (if length ws > 0 then col + 1 else col);
                       sb2 =
                         (if color then
                            (if isError bs
                             then sb1 @ [Escape escRed, Token bs, Escape escReset]
                             else sb1 @ [Token bs])
                          else sb1 @ [Token bs])
                   in (sb2, col1 + bsLen)))
         in if punctLen > 0
            then (fst placed @ [Punct punct], snd placed + punctLen, in3)
            else (fst placed, snd placed, in3)))"

text \<open>
  Facts about one pass, needed for the termination of the loop: what is left of the input
  after a pass. After the black space the input is empty or starts with white space or a
  comma, so the rune decoded there is one ASCII byte, and only a comma is ever attached.
\<close>

lemma DecodeRune_ascii: "byte c < 128 \<Longrightarrow> DecodeRune (c # q) = (byte c, 1)"
  by (simp add: DecodeRune_def)

lemma isWhite_IsSpace: "isWhite c \<Longrightarrow> byte c < 128 \<and> IsSpace (byte c)"
  by (auto simp: isWhite_def IsSpace_def)

lemma byte_comma: "byte CHR '','' = 44"
  by (simp add: byte_def)

lemma not_black_cases: "\<not> isBlack c \<Longrightarrow> isWhite c \<or> c = CHR '',''"
  by (simp add: isBlack_def)

definition afterBlack :: "string \<Rightarrow> string" where
  "afterBlack in0 = dropWhile isBlack (dropWhile isWhite in0)"

lemma drop_takeWhile: "drop (length (takeWhile P xs)) xs = dropWhile P xs"
  by (induction xs) auto

lemma cut_takeWhile:
  "(if length (takeWhile P xs) > 0 then drop (length (takeWhile P xs)) xs else xs) = dropWhile P xs"
  by (cases xs) (auto simp: drop_takeWhile)

lemma afterBlack_head: "afterBlack in0 = c # r \<Longrightarrow> isWhite c \<or> c = CHR '',''"
proof -
  assume a: "afterBlack in0 = c # r"
  then have "\<not> isBlack c" unfolding afterBlack_def
    by (metis hd_dropWhile list.sel(1) list.distinct(1))
  then show ?thesis by (rule not_black_cases)
qed

lemma wrapToken_rest_raw:
  "snd (snd (wrapToken c w i (sb, col, in0))) =
     (let in2 = afterBlack in0 in
      if length in2 > 0 \<and> \<not> IsSpace (fst (DecodeRune in2)) then drop (snd (DecodeRune in2)) in2 else in2)"
  unfolding wrapToken_def whiteSpaceRE_def blackSpaceRE_def afterBlack_def
  by (simp only: cut_takeWhile Let_def split: prod.split) auto

lemma wrapToken_rest:
  "snd (snd (wrapToken c w i (sb, col, in0))) =
     (case afterBlack in0 of [] \<Rightarrow> [] | x # r \<Rightarrow> if x = CHR '','' then r else x # r)"
proof (cases "afterBlack in0")
  case Nil
  then show ?thesis
    by (simp add: wrapToken_rest_raw)
next
  case (Cons x r)
  from afterBlack_head[OF Cons] show ?thesis
  proof
    assume w: "isWhite x"
    then have "x \<noteq> CHR '',''" by (auto simp: isWhite_def byte_def)
    with w Cons show ?thesis
      using isWhite_IsSpace[OF w]
      by (simp add: wrapToken_rest_raw DecodeRune_ascii)
  next
    assume "x = CHR '',''"
    with Cons show ?thesis
      by (simp add: wrapToken_rest_raw DecodeRune_ascii byte_comma IsSpace_def)
  qed
qed

lemma afterBlack_length: "length (afterBlack in0) \<le> length in0"
  unfolding afterBlack_def
  by (meson length_dropWhile_le order_trans)

lemma afterBlack_progress:
  assumes "afterBlack in0 = x # r" "x \<noteq> CHR '',''"
  shows "length (x # r) < length in0"
proof (cases in0)
  case Nil
  with assms show ?thesis by (simp add: afterBlack_def)
next
  case (Cons a as)
  from afterBlack_head[OF assms(1)] assms(2) have wx: "isWhite x" by simp
  show ?thesis
  proof (cases "isWhite a")
    case True
    then have "length (dropWhile isWhite in0) \<le> length as"
      using Cons by (simp add: length_dropWhile_le)
    moreover have "length (afterBlack in0) \<le> length (dropWhile isWhite in0)"
      unfolding afterBlack_def by (rule length_dropWhile_le)
    ultimately show ?thesis using assms(1) Cons by simp
  next
    case False
    then have d: "dropWhile isWhite in0 = in0" using Cons by simp
    have "isBlack a"
    proof (rule ccontr)
      assume nb: "\<not> isBlack a"
      then have "afterBlack in0 = in0" using d Cons by (simp add: afterBlack_def)
      with assms(1) Cons have "x = a" by simp
      with wx False show False by simp
    qed
    then have "afterBlack in0 = dropWhile isBlack as"
      using d Cons by (simp add: afterBlack_def)
    then have "length (afterBlack in0) \<le> length as"
      by (simp add: length_dropWhile_le)
    then show ?thesis using assms(1) Cons by simp
  qed
qed

lemma wrapToken_shorter:
  "in0 \<noteq> [] \<Longrightarrow> length (snd (snd (wrapToken c w i (sb, col, in0)))) < length in0"
proof -
  assume ne: "in0 \<noteq> []"
  show ?thesis
  proof (cases "afterBlack in0")
    case Nil
    then show ?thesis using ne by (simp add: wrapToken_rest)
  next
    case (Cons x r)
    show ?thesis
    proof (cases "x = CHR '',''")
      case True
      have "length (afterBlack in0) \<le> length in0" by (rule afterBlack_length)
      then show ?thesis using Cons True by (simp add: wrapToken_rest)
    next
      case False
      from afterBlack_progress[OF Cons False] show ?thesis
        using Cons False by (simp add: wrapToken_rest)
    qed
  qed
qed

text \<open>\<^verbatim>\<open>for len(in) > 0 { ... }\<close>\<close>

function wrapLoop ::
  "bool \<Rightarrow> int \<Rightarrow> string \<Rightarrow> chunk list \<times> int \<times> string \<Rightarrow> chunk list \<times> int \<times> string" where
  "wrapLoop color width indent (sb, col, in0) =
     (if length in0 > 0
      then wrapLoop color width indent (wrapToken color width indent (sb, col, in0))
      else (sb, col, in0))"
  by pat_completeness auto
termination
proof (relation "measure (\<lambda>(color, width, indent, sb, col, in0). length in0)")
  show "wf (measure (\<lambda>(color, width, indent, sb, col, in0). length in0))" by simp
next
  fix color width indent sb col in0
  assume "0 < length (in0::string)"
  then show "((color, width, indent, wrapToken color width indent (sb, col, in0)), color, width, indent, sb, col, in0) \<in> measure (\<lambda>(color, width, indent, sb, col, in0). length in0)"
    using wrapToken_shorter[of in0 color width indent sb col]
    by (cases "wrapToken color width indent (sb, col, in0)") auto
qed

declare wrapLoop.simps [simp del]


subsection \<open>The key/value loop, lines 267 to 282\<close>

text \<open>The state is \<open>(sb, col, needSpace)\<close>.\<close>

fun keyvalLoop ::
  "int \<Rightarrow> string \<Rightarrow> keyvalText list \<Rightarrow> chunk list \<times> int \<times> int \<Rightarrow> chunk list \<times> int \<times> int" where
  "keyvalLoop width indent [] st = st"
| "keyvalLoop width indent (kt # kts) (sb, col, needSpace) =
     (let wrapped =
            (if ktextRuneCount kt + needSpace + col > width
             then (sb @ [Newline, Indent indent], int (length indent), 0)
             else (sb, col, needSpace));
          spaced =
            (if snd (snd wrapped) > 0
             then (fst wrapped @ [Space], fst (snd wrapped) + 1)
             else (fst wrapped, fst (snd wrapped)))
      in keyvalLoop width indent kts
           (fst spaced @ [Keyval (ktext kt)], snd spaced + ktextRuneCount kt, 1))"

subsection \<open>Write\<close>

text \<open>
  Lines 175 to 284: the buffer for a message that is not suppressed, from the prefix to
  the final newline.
\<close>

definition layout :: "bool \<Rightarrow> int \<Rightarrow> string \<Rightarrow> string \<Rightarrow> messageText \<Rightarrow> chunk list" where
  "layout color width indent prefix msgText =
     (let sb = [Prefix prefix];
          col = int (length prefix);
          needSpace = (0::int);
          st =
            (if col + textRuneCount msgText > width \<or> color
             then (let r = wrapLoop color width indent (sb, col, mtext msgText)
                   in (fst r, fst (snd r), 1))
             else if textRuneCount msgText > 0
             then (let sp = (if needSpace > 0 then (sb @ [Space], col + 1) else (sb, col))
                   in (fst sp @ [Plain (mtext msgText)], snd sp + textRuneCount msgText, 1))
             else (sb, col, needSpace));
          r = keyvalLoop width indent (keyvals msgText) st
      in fst r @ [Newline])"

definition suppressed :: "Writer \<Rightarrow> string \<Rightarrow> bool" where
  "suppressed w t = (\<not> Verbose w \<and> list_ex (HasPrefix t) verbosePrefixes)"

definition indentOf :: "string \<Rightarrow> string" where
  "indentOf prefix =
     (if length prefix > 0 then replicate (length prefix) CHR '' '' else ''    '')"

text \<open>
  Lines 147 to 284 for the writer \<open>w\<close> and the parsed message: the buffer that is
  handed to the stream, or the panic of the pair loop.
\<close>

definition buffer :: "(string \<Rightarrow> iface \<Rightarrow> string) \<Rightarrow> Writer \<Rightarrow> Message \<Rightarrow> panic + chunk list" where
  "buffer kvString w msg =
     (let prefix = fst (extractHeader (Text msg));
          t = snd (extractHeader (Text msg));
          width = Width w ();
          indent = indentOf prefix;
          msgText = \<lparr>mtext = t, textRuneCount = int (RuneCount t),
                     totalRuneCount = int (RuneCount t), keyvals = []\<rparr>
      in case pairLoop kvString (List msg) msgText of
           Inl p \<Rightarrow> Inl p
         | Inr m \<Rightarrow> Inr (layout (colorOutput w) width indent prefix m))"

text \<open>
  What a call of \<^verbatim>\<open>Write\<close> does and returns: the byte strings handed to \<open>Out\<close>, in
  order, and the pair \<^verbatim>\<open>(n, err)\<close> it returns (\<open>retN\<close>, \<open>retErr\<close>).
\<close>

record WriteResult =
  calls :: "string list"
  retN :: int
  retErr :: "go_error option"

definition Write :: "(string \<Rightarrow> iface \<Rightarrow> string) \<Rightarrow> Writer \<Rightarrow> Message \<Rightarrow> panic + WriteResult" where
  "Write kvString w msg =
     (if suppressed w (snd (extractHeader (Text msg)))
      then Inr \<lparr>calls = [], retN = 0, retErr = None\<rparr>
      else
        (case buffer kvString w msg of
           Inl p \<Rightarrow> Inl p
         | Inr sb \<Rightarrow>
             (let r = Out w (Bytes sb)
              in Inr \<lparr>calls = [Bytes sb], retN = fst r, retErr = snd r\<rparr>)))"

section \<open>One pass of the wrapping loop in closed form\<close>

text \<open>
  What a pass reads off the input \<open>in0\<close>: whether white space leads (\<open>passWs\<close>), the
  black space (\<open>passBs\<close>), whether a comma follows it (\<open>passComma\<close>), the input left
  (\<open>passRest\<close>) and the columns asked for (\<open>passNeed\<close>); what it appends and the column
  it leaves. \<open>wrapToken_pass\<close> proves that \<open>wrapToken\<close> computes exactly this.
\<close>

definition passWs :: "string \<Rightarrow> bool" where
  "passWs in0 = (takeWhile isWhite in0 \<noteq> [])"

definition passBs :: "string \<Rightarrow> string" where
  "passBs in0 = takeWhile isBlack (dropWhile isWhite in0)"

definition passComma :: "string \<Rightarrow> bool" where
  "passComma in0 = (case afterBlack in0 of [] \<Rightarrow> False | x # r \<Rightarrow> x = CHR '','')"

definition passRest :: "string \<Rightarrow> string" where
  "passRest in0 = (case afterBlack in0 of [] \<Rightarrow> [] | x # r \<Rightarrow> if x = CHR '','' then r else x # r)"

definition passNeed :: "string \<Rightarrow> int" where
  "passNeed in0 = int (RuneCount (passBs in0)) + (if passWs in0 then 1 else 0)
                    + (if passComma in0 then 1 else 0)"

definition passChunks :: "bool \<Rightarrow> int \<Rightarrow> string \<Rightarrow> int \<Rightarrow> string \<Rightarrow> chunk list" where
  "passChunks color width indent col in0 =
     (if passNeed in0 + col > width
      then [Newline, Indent indent, Token (passBs in0)]
      else (if passWs in0 then [Space] else [])
           @ (if color \<and> isError (passBs in0)
              then [Escape escRed, Token (passBs in0), Escape escReset]
              else [Token (passBs in0)]))
     @ (if passComma in0 then [Punct 44] else [])"

definition passCol :: "int \<Rightarrow> string \<Rightarrow> int \<Rightarrow> string \<Rightarrow> int" where
  "passCol width indent col in0 =
     (if passNeed in0 + col > width
      then int (length indent) + int (RuneCount (passBs in0))
      else col + (if passWs in0 then 1 else 0) + int (RuneCount (passBs in0)))
     + (if passComma in0 then 1 else 0)"

lemma decode_afterBlack:
  "afterBlack in0 \<noteq> [] \<Longrightarrow>
     DecodeRune (afterBlack in0) = (if passComma in0 then (44, 1) else (byte (hd (afterBlack in0)), 1))
     \<and> IsSpace (fst (DecodeRune (afterBlack in0))) = (\<not> passComma in0)"
proof -
  assume "afterBlack in0 \<noteq> []"
  then obtain x r where c: "afterBlack in0 = x # r" by (cases "afterBlack in0") auto
  from afterBlack_head[OF c] show ?thesis
  proof
    assume w: "isWhite x"
    then have "x \<noteq> CHR '',''" by (auto simp: isWhite_def byte_def)
    with w c isWhite_IsSpace[OF w] show ?thesis
      by (simp add: passComma_def DecodeRune_ascii)
  next
    assume "x = CHR '',''"
    with c show ?thesis
      by (simp add: passComma_def DecodeRune_ascii byte_comma IsSpace_def)
  qed
qed

lemma passComma_nonempty: "passComma in0 \<Longrightarrow> afterBlack in0 \<noteq> []"
  by (auto simp: passComma_def)

lemma wrapToken_pass:
  "wrapToken color width indent (sb, col, in0) =
     (sb @ passChunks color width indent col in0, passCol width indent col in0, passRest in0)"
proof (cases "afterBlack in0 = []")
  case True
  then have nc: "\<not> passComma in0" by (simp add: passComma_def)
  have ab: "dropWhile isBlack (dropWhile isWhite in0) = []" using True by (simp add: afterBlack_def)
  show ?thesis
    unfolding wrapToken_def whiteSpaceRE_def blackSpaceRE_def
    apply (simp only: cut_takeWhile Let_def prod.case)
    apply (simp only: ab)
    using nc
    apply (simp add: True passChunks_def passCol_def passRest_def passNeed_def passWs_def passBs_def)
    done
next
  case False
  have ab: "dropWhile isBlack (dropWhile isWhite in0) = afterBlack in0" by (simp add: afterBlack_def)
  have d: "DecodeRune (afterBlack in0) = (if passComma in0 then (44, 1) else (byte (hd (afterBlack in0)), 1))"
    using decode_afterBlack[OF False] by (rule conjunct1)
  have s: "IsSpace (fst (DecodeRune (afterBlack in0))) = (\<not> passComma in0)"
    using decode_afterBlack[OF False] by (rule conjunct2)
  have r: "passRest in0 = (if passComma in0 then drop 1 (afterBlack in0) else afterBlack in0)"
    using False by (cases "afterBlack in0") (auto simp: passRest_def passComma_def)
  show ?thesis
    unfolding wrapToken_def whiteSpaceRE_def blackSpaceRE_def
    apply (simp only: cut_takeWhile Let_def prod.case)
    apply (simp only: ab s)
    using False
    apply (cases "passComma in0")
     apply (simp_all add: d r passChunks_def passCol_def passNeed_def passWs_def passBs_def)
    done
qed

section \<open>Notions used by the properties\<close>


text \<open>
  A key/value list of even length whose elements at the even positions are strings.
\<close>

fun isStr :: "iface \<Rightarrow> bool" where
  "isStr (Str s) = True"
| "isStr v = False"

definition wellFormed :: "iface list \<Rightarrow> bool" where
  "wellFormed l =
     (even (length l) \<and> list_all (\<lambda>i. even i \<longrightarrow> isStr (l ! i)) [0..<length l])"

text \<open>Writers and streams for the concrete instances below.\<close>

definition countingOut :: "string \<Rightarrow> int \<times> go_error option" where
  "countingOut b = (int (length b), None)"

definition failingOut :: "string \<Rightarrow> int \<times> go_error option" where
  "failingOut b = (3, Some (IOError ''short write''))"

definition testWriter :: "(string \<Rightarrow> int \<times> go_error option) \<Rightarrow> int \<Rightarrow> bool \<Rightarrow> bool \<Rightarrow> Writer" where
  "testWriter out width verbose color =
     \<lparr>Out = out, Width = (\<lambda>u. width), Verbose = verbose, colorOutput = color, origOut = out\<rparr>"

definition showPair :: "string \<Rightarrow> iface \<Rightarrow> string" where
  "showPair k v = k @ ''='' @ (case v of Str x \<Rightarrow> x | Num i \<Rightarrow> ''#'' | Flag b \<Rightarrow> ''?'' | Nil \<Rightarrow> ''nil'')"

text \<open>
  The texts written by line 279, in the order of their writes, and the texts of the
  pairs of a key/value list, in the order of the list.
\<close>

fun keyvalChunks :: "chunk list \<Rightarrow> string list" where
  "keyvalChunks [] = []"
| "keyvalChunks (Keyval t # cs) = t # keyvalChunks cs"
| "keyvalChunks (c # cs) = keyvalChunks cs"

fun renderedPairs :: "(string \<Rightarrow> iface \<Rightarrow> string) \<Rightarrow> iface list \<Rightarrow> string list" where
  "renderedPairs kvString (Str key # v # rest) = kvString key v # renderedPairs kvString rest"
| "renderedPairs kvString l = []"

text \<open>The number of escape bytes (1B) in a byte string.\<close>

definition countEsc :: "string \<Rightarrow> nat" where
  "countEsc s = count_list s (CHR 0x1B)"

section \<open>Header extraction\<close>


lemma extractHeader_append: "fst (extractHeader t) @ snd (extractHeader t) = t"
  by (cases "headerLen t \<le> length t")
     (simp_all add: extractHeader_def headerRE_def Let_def min_def)




section \<open>The pair loop and panics\<close>

lemma list_all_upt: "list_all P [0..<k] = (\<forall>i<k. P i)"
  by (auto simp: list_all_iff)

lemma wellFormed_Nil: "wellFormed []"
  by (simp add: wellFormed_def)

lemma wellFormed_single: "\<not> wellFormed [k]"
  by (simp add: wellFormed_def)

lemma wellFormed_Cons2: "wellFormed (k # v # rest) = (isStr k \<and> wellFormed rest)"
proof -
  have a: "(\<forall>i < Suc (Suc (length rest)). even i \<longrightarrow> isStr ((k # v # rest) ! i))
      = (isStr k \<and> (\<forall>i < length rest. even i \<longrightarrow> isStr (rest ! i)))" (is "?L = ?R")
  proof
    assume l: ?L
    have "isStr k" using l by auto
    moreover have "\<forall>i < length rest. even i \<longrightarrow> isStr (rest ! i)"
    proof (intro allI impI)
      fix i assume "i < length rest" "even i"
      then have "Suc (Suc i) < Suc (Suc (length rest))" "even (Suc (Suc i))" by auto
      with l have "isStr ((k # v # rest) ! Suc (Suc i))" by blast
      then show "isStr (rest ! i)" by simp
    qed
    ultimately show ?R by simp
  next
    assume r: ?R
    show ?L
    proof (intro allI impI)
      fix i assume i: "i < Suc (Suc (length rest))" "even i"
      show "isStr ((k # v # rest) ! i)"
      proof (cases i)
        case 0 then show ?thesis using r by simp
      next
        case (Suc j)
        with i have "odd j" by simp
        then obtain m where "j = Suc m" by (cases j) auto
        with Suc i r show ?thesis by auto
      qed
    qed
  qed
  have "wellFormed (k # v # rest)
      = (even (length rest) \<and> (\<forall>i < Suc (Suc (length rest)). even i \<longrightarrow> isStr ((k # v # rest) ! i)))"
    by (simp only: wellFormed_def list_all_upt length_Cons even_Suc_Suc_iff)
  also have "\<dots> = (isStr k \<and> even (length rest) \<and> (\<forall>i < length rest. even i \<longrightarrow> isStr (rest ! i)))"
    by (simp only: a) blast
  also have "\<dots> = (isStr k \<and> wellFormed rest)"
    by (simp only: wellFormed_def list_all_upt)
  finally show ?thesis .
qed

text \<open>The pair loop runs to its end exactly on the well-formed lists.\<close>

lemma pairLoop_wellFormed:
  "(\<exists>m'. pairLoop kvString l m = Inr m') = wellFormed l"
proof (induction kvString l m rule: pairLoop.induct)
  case (1 kvString m)
  then show ?case by (simp add: wellFormed_Nil)
next
  case (2 kvString k m)
  then show ?case by (cases k) (simp_all add: wellFormed_single)
next
  case (3 kvString k v rest m)
  then show ?case by (cases k) (simp_all add: wellFormed_Cons2 Let_def)
qed

lemma buffer_wellFormed:
  "wellFormed (List msg) \<Longrightarrow> \<exists>sb. buffer kvString w msg = Inr sb"
proof -
  assume wf: "wellFormed (List msg)"
  let ?m = "\<lparr>mtext = snd (extractHeader (Text msg)),
              textRuneCount = int (RuneCount (snd (extractHeader (Text msg)))),
              totalRuneCount = int (RuneCount (snd (extractHeader (Text msg)))),
              keyvals = []\<rparr>"
  from wf obtain m' where "pairLoop kvString (List msg) ?m = Inr m'"
    using pairLoop_wellFormed [of kvString "List msg" ?m] by blast
  then show ?thesis by (simp add: buffer_def Let_def)
qed

lemma Bytes_layout_nonempty: "Bytes (layout c wd i p m) \<noteq> []"
  by (simp add: layout_def Let_def Bytes_def newline_def)

lemma Bytes_buffer_nonempty: "buffer kvString w msg = Inr sb \<Longrightarrow> Bytes sb \<noteq> []"
  by (auto simp: buffer_def Let_def Bytes_layout_nonempty split: sum.splits)

text \<open>
  C9: on a message whose key/value list has even length and strings at its even
  positions, Write runs to its end: it returns a result and does not panic, whatever
  the writer, the text and the pair formatter are.
\<close>

theorem C9_no_panic_on_well_formed_list:
  assumes "wellFormed (List msg)"
  shows "\<exists>r. Write kvString w msg = Inr r"
proof -
  from buffer_wellFormed [OF assms] obtain sb where "buffer kvString w msg = Inr sb"
    by blast
  then show ?thesis by (simp add: Write_def Let_def)
qed

theorem C9_no_panic_witness:
  "wellFormed [Str ''k'', Num 1, Str ''j'', Nil]
   \<and> (\<exists>r. Write showPair (testWriter countingOut 80 True False)
             \<lparr>Text = ''hello'', List = [Str ''k'', Num 1, Str ''j'', Nil]\<rparr> = Inr r)"
proof -
  have h: "wellFormed (List \<lparr>Text = ''hello'', List = [Str ''k'', Num 1, Str ''j'', Nil]\<rparr>)"
    by (simp add: wellFormed_Cons2 wellFormed_Nil)
  from C9_no_panic_on_well_formed_list [OF h] h show ?thesis by simp
qed

section \<open>Verbosity and the stream\<close>

text \<open>
  C5: when the text left after the header starts with debug: or trace:, a writer that is
  not verbose writes nothing and returns (0, nil); a verbose writer hands the stream the
  buffer of the ordinary rendering, which is not empty (the list being well formed, so
  that the rendering exists).
\<close>

theorem C5_verbosity_gating:
  assumes "HasPrefix (snd (extractHeader (Text msg))) ''debug:''
           \<or> HasPrefix (snd (extractHeader (Text msg))) ''trace:''"
  shows "(\<not> Verbose w \<longrightarrow>
            Write kvString w msg = Inr \<lparr>calls = [], retN = 0, retErr = None\<rparr>)
         \<and> (Verbose w \<and> wellFormed (List msg) \<longrightarrow>
              (\<exists>sb. buffer kvString w msg = Inr sb \<and> Bytes sb \<noteq> []
                 \<and> Write kvString w msg =
                     Inr \<lparr>calls = [Bytes sb], retN = fst (Out w (Bytes sb)),
                          retErr = snd (Out w (Bytes sb))\<rparr>))"
proof (intro conjI impI)
  assume "\<not> Verbose w"
  with assms show "Write kvString w msg = Inr \<lparr>calls = [], retN = 0, retErr = None\<rparr>"
    by (auto simp: Write_def suppressed_def verbosePrefixes_def)
next
  assume a: "Verbose w \<and> wellFormed (List msg)"
  then obtain sb where sb: "buffer kvString w msg = Inr sb"
    using buffer_wellFormed by blast
  from a have "\<not> suppressed w (snd (extractHeader (Text msg)))"
    by (simp add: suppressed_def)
  with sb have "Write kvString w msg =
      Inr \<lparr>calls = [Bytes sb], retN = fst (Out w (Bytes sb)), retErr = snd (Out w (Bytes sb))\<rparr>"
    by (simp add: Write_def Let_def)
  with sb Bytes_buffer_nonempty [OF sb]
  show "\<exists>sb. buffer kvString w msg = Inr sb \<and> Bytes sb \<noteq> []
          \<and> Write kvString w msg =
              Inr \<lparr>calls = [Bytes sb], retN = fst (Out w (Bytes sb)),
                   retErr = snd (Out w (Bytes sb))\<rparr>"
    by blast
qed

theorem C5_verbosity_gating_witness:
  "Write showPair (testWriter countingOut 80 False False)
      \<lparr>Text = ''12:00:00 debug: detail'', List = [Str ''k'', Num 1]\<rparr>
     = Inr \<lparr>calls = [], retN = 0, retErr = None\<rparr>
   \<and> (\<exists>sb. buffer showPair (testWriter countingOut 80 True False)
               \<lparr>Text = ''12:00:00 debug: detail'', List = [Str ''k'', Num 1]\<rparr> = Inr sb
          \<and> Bytes sb \<noteq> []
          \<and> Write showPair (testWriter countingOut 80 True False)
               \<lparr>Text = ''12:00:00 debug: detail'', List = [Str ''k'', Num 1]\<rparr>
              = Inr \<lparr>calls = [Bytes sb], retN = int (length (Bytes sb)), retErr = None\<rparr>)"
proof -
  let ?msg = "\<lparr>Text = ''12:00:00 debug: detail'', List = [Str ''k'', Num 1]\<rparr>"
  have h: "HasPrefix (snd (extractHeader (Text ?msg))) ''debug:''
           \<or> HasPrefix (snd (extractHeader (Text ?msg))) ''trace:''"
    by code_simp
  have q: "\<not> Verbose (testWriter countingOut 80 False False)"
    by (simp add: testWriter_def)
  have v: "Verbose (testWriter countingOut 80 True False) \<and> wellFormed (List ?msg)"
    by (simp add: testWriter_def wellFormed_Cons2 wellFormed_Nil)
  have o: "Out (testWriter countingOut 80 True False) = countingOut"
    by (simp add: testWriter_def)
  from C5_verbosity_gating [OF h, of "testWriter countingOut 80 False False" showPair] q
  have a: "Write showPair (testWriter countingOut 80 False False) ?msg
             = Inr \<lparr>calls = [], retN = 0, retErr = None\<rparr>"
    by blast
  from C5_verbosity_gating [OF h, of "testWriter countingOut 80 True False" showPair] v
  have b: "\<exists>sb. buffer showPair (testWriter countingOut 80 True False) ?msg = Inr sb
          \<and> Bytes sb \<noteq> []
          \<and> Write showPair (testWriter countingOut 80 True False) ?msg
              = Inr \<lparr>calls = [Bytes sb], retN = fst (countingOut (Bytes sb)),
                     retErr = snd (countingOut (Bytes sb))\<rparr>"
    unfolding o by blast
  from a b show ?thesis by (simp add: countingOut_def)
qed

text \<open>
  C8: when the message is not suppressed and the stream's write reports an error for the
  buffer, Write returns that error and the byte count the stream reported, and the
  stream was called exactly once, with the buffer: no retry and no further write.
\<close>

theorem C8_stream_error_returned:
  assumes "\<not> suppressed w (snd (extractHeader (Text msg)))"
      and "buffer kvString w msg = Inr sb"
      and "Out w (Bytes sb) = (k, Some e)"
  shows "Write kvString w msg = Inr \<lparr>calls = [Bytes sb], retN = k, retErr = Some e\<rparr>"
  using assms by (simp add: Write_def Let_def)

theorem C8_stream_error_witness:
  "Write showPair (testWriter failingOut 80 False False) \<lparr>Text = ''hello world'', List = []\<rparr>
     = Inr \<lparr>calls = [''hello world'' @ newline], retN = 3,
            retErr = Some (IOError ''short write'')\<rparr>"
proof -
  let ?w = "testWriter failingOut 80 False False"
  let ?msg = "\<lparr>Text = ''hello world'', List = []\<rparr>"
  let ?sb = "[Prefix [], Plain ''hello world'', Newline]"
  have s: "\<not> suppressed ?w (snd (extractHeader (Text ?msg)))"
    by code_simp
  have b: "buffer showPair ?w ?msg = Inr ?sb"
    by code_simp
  have o: "Out ?w (Bytes ?sb) = (3, Some (IOError ''short write''))"
    by (simp add: testWriter_def failingOut_def)
  from C8_stream_error_returned [OF s b o] show ?thesis
    by (simp add: Bytes_def)
qed

section \<open>Order of the key/value pairs\<close>

lemma keyvalChunks_append: "keyvalChunks (a @ b) = keyvalChunks a @ keyvalChunks b"
  by (induction a rule: keyvalChunks.induct) auto

lemma keyvalChunks_pass: "keyvalChunks (passChunks c w i col in0) = []"
  by (simp add: passChunks_def)

lemma wrapLoop_rest: "snd (snd (wrapLoop c w i st)) = []"
proof (induction c w i st rule: wrapLoop.induct)
  case (1 color width indent sb col in0)
  then show ?case by (cases "in0 = []") (simp_all add: wrapLoop.simps)
qed

lemma keyvalChunks_wrapLoop:
  "keyvalChunks (fst (wrapLoop c w i st)) = keyvalChunks (fst st)"
proof (induction c w i st rule: wrapLoop.induct)
  case (1 color width indent sb col in0)
  show ?case
  proof (cases "in0 = []")
    case True
    then show ?thesis by (simp add: wrapLoop.simps)
  next
    case False
    then have "keyvalChunks (fst (wrapLoop color width indent (sb, col, in0)))
       = keyvalChunks (fst (wrapToken color width indent (sb, col, in0)))"
      using 1 by (simp add: wrapLoop.simps [of _ _ _ sb col in0])
    then show ?thesis
      by (simp add: wrapToken_pass keyvalChunks_append keyvalChunks_pass)
  qed
qed

lemma keyvalChunks_keyvalLoop:
  "keyvalChunks (fst (keyvalLoop w i kts st)) = keyvalChunks (fst st) @ map ktext kts"
proof (induction w i kts st rule: keyvalLoop.induct)
  case (1 width indent st)
  then show ?case by simp
next
  case (2 width indent kt kts sb col needSpace)
  then show ?case
    by (simp add: Let_def keyvalChunks_append)
qed

lemma pairLoop_keyvals:
  "pairLoop kvString l m = Inr m' \<Longrightarrow>
     map ktext (keyvals m') = map ktext (keyvals m) @ renderedPairs kvString l
     \<and> mtext m' = mtext m \<and> textRuneCount m' = textRuneCount m"
proof (induction kvString l m arbitrary: m' rule: pairLoop.induct)
  case (1 kvString m)
  then show ?case by simp
next
  case (2 kvString k m)
  then show ?case by (cases k) simp_all
next
  case (3 kvString k v rest m)
  show ?case
  proof (cases k)
    case (Str key)
    let ?m2 = "m\<lparr>keyvals := keyvals m @ [\<lparr>ktext = kvString key v,
                   ktextRuneCount = int (RuneCount (kvString key v))\<rparr>],
                 totalRuneCount := totalRuneCount m + (int (RuneCount (kvString key v)) + 1)\<rparr>"
    from "3.prems" Str have p: "pairLoop kvString rest ?m2 = Inr m'"
      by (simp add: Let_def)
    from "3.IH" [OF Str refl refl p]
    show ?thesis using Str by simp
  qed (use "3.prems" in simp_all)
qed

lemma keyvalChunks_layout:
  "keyvalChunks (layout c w i p m) = map ktext (keyvals m)"
  by (simp add: layout_def Let_def keyvalChunks_append keyvalChunks_keyvalLoop keyvalChunks_wrapLoop)

text \<open>
  C6: the pair texts are written to the buffer in the order in which the pairs stand in
  the record, whatever the width and wherever the line breaks fall: the pair writes of
  the buffer, read from left to right, are the rendered pairs of the list.
\<close>

theorem C6_pairs_in_order:
  assumes "buffer kvString w msg = Inr sb"
  shows "keyvalChunks sb = renderedPairs kvString (List msg)"
proof -
  let ?m = "\<lparr>mtext = snd (extractHeader (Text msg)),
              textRuneCount = int (RuneCount (snd (extractHeader (Text msg)))),
              totalRuneCount = int (RuneCount (snd (extractHeader (Text msg)))),
              keyvals = []\<rparr>"
  from assms obtain m' where p: "pairLoop kvString (List msg) ?m = Inr m'"
    and sb: "sb = layout (colorOutput w) (Width w ()) (indentOf (fst (extractHeader (Text msg))))
                   (fst (extractHeader (Text msg))) m'"
    by (auto simp: buffer_def Let_def split: sum.splits)
  from pairLoop_keyvals [OF p] have "map ktext (keyvals m') = renderedPairs kvString (List msg)"
    by simp
  then show ?thesis by (simp add: sb keyvalChunks_layout)
qed


theorem C6_pairs_in_order_witness:
  "buffer showPair (testWriter countingOut 12 False False)
       \<lparr>Text = ''hello'', List = [Str ''b'', Str ''2'', Str ''a'', Str ''1'', Str ''b'', Str ''3'']\<rparr>
     = Inr [Prefix [], Plain ''hello'', Space, Keyval ''b=2'', Newline, Indent ''    '',
            Keyval ''a=1'', Space, Keyval ''b=3'', Newline]
   \<and> keyvalChunks [Prefix [], Plain ''hello'', Space, Keyval ''b=2'', Newline, Indent ''    '',
            Keyval ''a=1'', Space, Keyval ''b=3'', Newline] = [''b=2'', ''a=1'', ''b=3'']"
proof -
  have b: "buffer showPair (testWriter countingOut 12 False False)
       \<lparr>Text = ''hello'', List = [Str ''b'', Str ''2'', Str ''a'', Str ''1'', Str ''b'', Str ''3'']\<rparr>
     = Inr [Prefix [], Plain ''hello'', Space, Keyval ''b=2'', Newline, Indent ''    '',
            Keyval ''a=1'', Space, Keyval ''b=3'', Newline]"
    by code_simp
  from C6_pairs_in_order [OF b] b show ?thesis by (simp add: showPair_def)
qed

section \<open>Escape bytes\<close>

lemma countEsc_append: "countEsc (a @ b) = countEsc a + countEsc b"
  by (simp add: countEsc_def)

lemma Bytes_append: "Bytes (a @ b) = Bytes a @ Bytes b"
  by (simp add: Bytes_def)

lemma countEsc_white: "countEsc (takeWhile isWhite s) = 0"
proof -
  have "\<forall>c \<in> set (takeWhile isWhite s). c \<noteq> CHR 0x1B"
    by (auto dest!: set_takeWhileD simp: isWhite_def byte_def)
  then show ?thesis by (auto simp: countEsc_def count_list_0_iff)
qed

lemma input_split:
  "in0 = takeWhile isWhite in0 @ passBs in0 @ afterBlack in0"
  by (simp add: passBs_def afterBlack_def)

lemma afterBlack_passRest:
  "afterBlack in0 = (if passComma in0 then CHR '','' # passRest in0 else passRest in0)"
  by (cases "afterBlack in0") (auto simp: passComma_def passRest_def)

lemma countEsc_input:
  "countEsc in0 = countEsc (passBs in0) + countEsc (passRest in0)"
proof -
  have "countEsc in0 = countEsc (takeWhile isWhite in0 @ passBs in0 @ afterBlack in0)"
    using input_split [of in0] by simp
  also have "\<dots> = countEsc (passBs in0) + countEsc (afterBlack in0)"
    by (simp add: countEsc_append countEsc_white)
  also have "countEsc (afterBlack in0) = countEsc (passRest in0)"
    by (subst afterBlack_passRest) (simp add: countEsc_def)
  finally show ?thesis .
qed

lemma EncodeRune_comma: "EncodeRune 44 = '',''"
proof -
  have "char_of (of_char (CHR '','') :: nat) = CHR '',''" by (rule char_of_char)
  moreover have "of_char (CHR '','') = (44::nat)" by simp
  ultimately have "char_of (44::nat) = CHR '',''" by simp
  then show ?thesis by (simp add: EncodeRune_def)
qed

lemma countEsc_passChunks:
  "countEsc indent = 0 \<Longrightarrow>
     countEsc (Bytes (passChunks False width indent col in0)) = countEsc (passBs in0)"
  by (simp add: passChunks_def Bytes_def countEsc_append newline_def EncodeRune_comma)
     (simp add: countEsc_def)

lemma countEsc_wrapLoop:
  "countEsc indent = 0 \<Longrightarrow> \<not> color \<Longrightarrow>
     countEsc (Bytes (fst (wrapLoop color width indent st)))
       = countEsc (Bytes (fst st)) + countEsc (snd (snd st))"
proof (induction color width indent st rule: wrapLoop.induct)
  case (1 color width indent sb col in0)
  show ?case
  proof (cases "in0 = []")
    case True
    then show ?thesis by (simp add: wrapLoop.simps countEsc_def)
  next
    case False
    have c: "color = False" using "1.prems" by simp
    from False have "countEsc (Bytes (fst (wrapLoop color width indent (sb, col, in0))))
        = countEsc (Bytes (fst (wrapLoop color width indent (wrapToken color width indent (sb, col, in0)))))"
      by (simp add: wrapLoop.simps [of _ _ _ sb col in0])
    also have "\<dots> = countEsc (Bytes (fst (wrapToken color width indent (sb, col, in0))))
                      + countEsc (snd (snd (wrapToken color width indent (sb, col, in0))))"
      using "1.IH" False "1.prems" by simp
    also have "\<dots> = countEsc (Bytes sb) + countEsc (passBs in0) + countEsc (passRest in0)"
      using "1.prems"(1) by (simp add: wrapToken_pass c Bytes_append countEsc_append countEsc_passChunks)
    finally show ?thesis by (simp add: countEsc_input [of in0])
  qed
qed

lemma countEsc_keyvalLoop:
  "countEsc indent = 0 \<Longrightarrow>
     countEsc (Bytes (fst (keyvalLoop width indent kts st)))
       = countEsc (Bytes (fst st)) + sum_list (map (\<lambda>kt. countEsc (ktext kt)) kts)"
proof (induction width indent kts st rule: keyvalLoop.induct)
  case (1 width indent st)
  then show ?case by simp
next
  case (2 width indent kt kts sb col needSpace)
  then show ?case
    by (simp add: Let_def Bytes_append countEsc_append)
       (simp add: Bytes_def countEsc_def newline_def)
qed

lemma RuneCount_0: "(RuneCount s = 0) = (s = [])"
  by (cases s) simp_all

lemma countEsc_layout:
  assumes "countEsc indent = 0" "textRuneCount m = int (RuneCount (mtext m))"
  shows "countEsc (Bytes (layout False width indent prefix m))
       = countEsc prefix + countEsc (mtext m) + sum_list (map (\<lambda>kt. countEsc (ktext kt)) (keyvals m))"
proof -
  have e: "textRuneCount m \<le> 0 \<Longrightarrow> mtext m = []"
    using assms(2) RuneCount_0 [of "mtext m"] by simp
  have n: "countEsc newline = 0" by (simp add: countEsc_def newline_def)
  show ?thesis
    using assms(1) e
    by (auto simp: layout_def Let_def Bytes_append countEsc_append countEsc_keyvalLoop
          countEsc_wrapLoop n)
       (simp_all add: Bytes_def countEsc_def newline_def)
qed


lemma countEsc_indentOf: "countEsc (indentOf p) = 0"
  by (simp add: indentOf_def countEsc_def count_list_0_iff)

lemma NoColor_colorOutput: "\<not> colorOutput (NoColor w)"
  by (simp add: NoColor_def)

text \<open>
  C10: when color output is off (the field is false, or the writer comes from NoColor),
  the buffer holds exactly as many escape bytes as the message text and the rendered
  pair texts hold together: Write adds none of its own.
\<close>

theorem C10_no_escape_without_color:
  assumes "\<not> colorOutput w \<or> (\<exists>w0. w = NoColor w0)"
      and "buffer kvString w msg = Inr sb"
  shows "countEsc (Bytes sb)
           = countEsc (Text msg) + sum_list (map countEsc (renderedPairs kvString (List msg)))"
proof -
  from assms(1) have nc: "colorOutput w = False"
    using NoColor_colorOutput by auto
  let ?p = "fst (extractHeader (Text msg))"
  let ?t = "snd (extractHeader (Text msg))"
  let ?m = "\<lparr>mtext = ?t, textRuneCount = int (RuneCount ?t),
              totalRuneCount = int (RuneCount ?t), keyvals = []\<rparr>"
  from assms(2) obtain m' where p: "pairLoop kvString (List msg) ?m = Inr m'"
    and sb: "sb = layout False (Width w ()) (indentOf ?p) ?p m'"
    by (auto simp: buffer_def Let_def nc split: sum.splits)
  from pairLoop_keyvals [OF p]
  have k: "map ktext (keyvals m') = renderedPairs kvString (List msg)"
    and t: "mtext m' = ?t" and r: "textRuneCount m' = int (RuneCount (mtext m'))"
    by simp_all
  have "sum_list (map (\<lambda>kt. countEsc (ktext kt)) (keyvals m'))
      = sum_list (map countEsc (map ktext (keyvals m')))"
    by (simp add: comp_def)
  then have s: "sum_list (map (\<lambda>kt. countEsc (ktext kt)) (keyvals m'))
      = sum_list (map countEsc (renderedPairs kvString (List msg)))"
    by (simp only: k)
  have "countEsc (Text msg) = countEsc ?p + countEsc ?t"
    using extractHeader_append [of "Text msg"] countEsc_append [of ?p ?t] by simp
  then show ?thesis
    by (simp add: sb countEsc_layout [OF countEsc_indentOf r] s t)
qed


theorem C10_no_escape_witness:
  "buffer showPair (NoColor (testWriter countingOut 80 False True))
       \<lparr>Text = ''error: disk full'', List = [Str ''k'', Str ''v'']\<rparr>
     = Inr [Prefix [], Plain ''error: disk full'', Space, Keyval ''k=v'', Newline]
   \<and> countEsc (Bytes [Prefix [], Plain ''error: disk full'', Space, Keyval ''k=v'', Newline]) = 0"
proof -
  let ?w = "NoColor (testWriter countingOut 80 False True)"
  have h: "\<not> colorOutput ?w \<or> (\<exists>w0. ?w = NoColor w0)"
    by (simp add: NoColor_def)
  have b: "buffer showPair ?w \<lparr>Text = ''error: disk full'', List = [Str ''k'', Str ''v'']\<rparr>
     = Inr [Prefix [], Plain ''error: disk full'', Space, Keyval ''k=v'', Newline]"
    by code_simp
  from C10_no_escape_without_color [OF h b] b show ?thesis
    by (simp add: countEsc_def showPair_def)
qed

end
